theory Spec2Isabelle
  imports Complex_Main "HOL-Library.Word"
begin

section \<open>JavaScript strings\<close>

text \<open>
  A JavaScript string is a sequence of 16-bit code units. The texts handled by
  \<^verbatim>\<open>apps/web/app.js\<close> are such strings; \<open>js\<close> writes an ASCII literal as one.
\<close>

type_synonym code_unit = "16 word"
type_synonym js_string = "code_unit list"

definition js :: "string \<Rightarrow> js_string" where
  "js s = map of_char s"

text \<open>ASCII lowercase: \<open>A\<close>..\<open>Z\<close> become \<open>a\<close>..\<open>z\<close>, every other code unit is kept.\<close>

definition ascii_lower :: "code_unit \<Rightarrow> code_unit" where
  "ascii_lower c = (if 0x41 \<le> c \<and> c \<le> 0x5A then c + 0x20 else c)"

section \<open>The regular expressions of \<open>extractPan\<close>\<close>

text \<open>
  \<^verbatim>\<open>
  const extractPan = (text) => {
    const right = /\b(2|3|4) o'clock\b/i;
    const left = /\b(8|9|10) o'clock\b/i;
    if (right.test(text)) return 0.6;
    if (left.test(text)) return -0.6;
    return 0;
  };
  \<close>
  The two literals use these pattern forms of ECMAScript: a pattern character, the
  assertion \<^verbatim>\<open>\b\<close>, a capturing group, a sequence of terms (an "Alternative" of the
  grammar) and a disjunction. Neither has the \<^verbatim>\<open>u\<close> flag.
\<close>

datatype pattern =
    Empty
  | PatternCharacter code_unit
  | WordBoundary
  | Group pattern
  | Alternative pattern pattern
  | Disjunction pattern pattern

definition Sequence :: "pattern list \<Rightarrow> pattern" where
  "Sequence ps = foldr Alternative ps Empty"

definition Literal :: "string \<Rightarrow> pattern" where
  "Literal s = Sequence (map PatternCharacter (js s))"

text \<open>
  \<open>String.prototype.toUpperCase\<close> on a one-unit string. On ASCII it maps \<open>a\<close>..\<open>z\<close>
  to \<open>A\<close>..\<open>Z\<close> and leaves the rest; above ASCII it follows the Unicode character
  database, which is a parameter \<open>ucd\<close> here (the result may be several code units).
\<close>

type_synonym unicode_upper = "code_unit \<Rightarrow> js_string"

definition toUpperCase :: "unicode_upper \<Rightarrow> code_unit \<Rightarrow> js_string" where
  "toUpperCase ucd ch =
     (if ch < 0x80 then [if 0x61 \<le> ch \<and> ch \<le> 0x7A then ch - 0x20 else ch]
      else ucd ch)"

text \<open>
  \<open>Canonicalize\<close> of the ECMAScript pattern semantics, for a pattern without the
  \<^verbatim>\<open>u\<close> flag: with \<^verbatim>\<open>i\<close> the code unit is upper-cased, unless the result is not one
  code unit or would turn a non-ASCII unit into an ASCII one.
\<close>

definition Canonicalize :: "unicode_upper \<Rightarrow> bool \<Rightarrow> code_unit \<Rightarrow> code_unit" where
  "Canonicalize ucd ignoreCase ch =
     (if \<not> ignoreCase then ch
      else case toUpperCase ucd ch of
             [cu] \<Rightarrow> if 0x80 \<le> ch \<and> cu < 0x80 then ch else cu
           | _ \<Rightarrow> ch)"

text \<open>The basic word characters: \<open>a\<close>..\<open>z\<close>, \<open>A\<close>..\<open>Z\<close>, \<open>0\<close>..\<open>9\<close> and \<open>_\<close>.\<close>

definition WordCharacters :: "code_unit \<Rightarrow> bool" where
  "WordCharacters c \<longleftrightarrow>
     (0x61 \<le> c \<and> c \<le> 0x7A) \<or> (0x41 \<le> c \<and> c \<le> 0x5A) \<or>
     (0x30 \<le> c \<and> c \<le> 0x39) \<or> c = 0x5F"

definition IsWordChar :: "js_string \<Rightarrow> int \<Rightarrow> bool" where
  "IsWordChar Input e =
     (if e = - 1 \<or> e = int (length Input) then False
      else WordCharacters (Input ! nat e))"

text \<open>
  The matcher of a pattern, started at index \<open>x\<close> of \<open>Input\<close>: the end indices of its
  matches, in the order in which ECMAScript's backtracking tries them (the head is
  the match it reports, the empty list is failure). Captures are not recorded:
  \<open>test\<close> does not return them.
\<close>

fun matcher :: "unicode_upper \<Rightarrow> bool \<Rightarrow> pattern \<Rightarrow> js_string \<Rightarrow> nat \<Rightarrow> nat list" where
  "matcher ucd ic Empty Input x = [x]"
| "matcher ucd ic (PatternCharacter c) Input x =
     (if x < length Input \<and> Canonicalize ucd ic (Input ! x) = Canonicalize ucd ic c
      then [x + 1] else [])"
| "matcher ucd ic WordBoundary Input x =
     (if IsWordChar Input (int x - 1) \<noteq> IsWordChar Input (int x) then [x] else [])"
| "matcher ucd ic (Group r) Input x = matcher ucd ic r Input x"
| "matcher ucd ic (Alternative r1 r2) Input x =
     concat (map (matcher ucd ic r2 Input) (matcher ucd ic r1 Input x))"
| "matcher ucd ic (Disjunction r1 r2) Input x =
     matcher ucd ic r1 Input x @ matcher ucd ic r2 Input x"

text \<open>
  A RegExp object: its pattern, its flags and the mutable property \<open>lastIndex\<close>.
\<close>

record RegExp =
  OriginalSource :: pattern
  ignoreCase :: bool
  global :: bool
  sticky :: bool
  lastIndex :: nat

text \<open>
  The loop of \<open>RegExpBuiltinExec\<close>: try the matcher at \<open>lastIndex\<close>, then one index
  further, until a match is found or the index passes the end of the string. The
  result is the match (start and end index) or \<open>None\<close> for \<open>null\<close>, with the RegExp
  object as the call leaves it.
\<close>

function RegExpBuiltinExec_loop ::
  "unicode_upper \<Rightarrow> RegExp \<Rightarrow> js_string \<Rightarrow> nat \<Rightarrow> (nat \<times> nat) option \<times> RegExp" where
  "RegExpBuiltinExec_loop ucd R S i =
     (if length S < i
      then (None, if global R \<or> sticky R then R\<lparr>lastIndex := 0\<rparr> else R)
      else case matcher ucd (ignoreCase R) (OriginalSource R) S i of
             [] \<Rightarrow> if sticky R then (None, R\<lparr>lastIndex := 0\<rparr>)
                   else RegExpBuiltinExec_loop ucd R S (i + 1)
           | e # _ \<Rightarrow>
               (Some (i, e), if global R \<or> sticky R then R\<lparr>lastIndex := e\<rparr> else R))"
  by pat_completeness auto
termination
  by (relation "measure (\<lambda>(ucd, R, S, i). Suc (length S) - i)") auto

declare RegExpBuiltinExec_loop.simps [simp del]

definition RegExpBuiltinExec ::
  "unicode_upper \<Rightarrow> RegExp \<Rightarrow> js_string \<Rightarrow> (nat \<times> nat) option \<times> RegExp" where
  "RegExpBuiltinExec ucd R S =
     RegExpBuiltinExec_loop ucd R S (if \<not> global R \<and> \<not> sticky R then 0 else lastIndex R)"

text \<open>\<open>RegExp.prototype.test\<close>: whether \<open>exec\<close> finds a match.\<close>

definition test :: "unicode_upper \<Rightarrow> RegExp \<Rightarrow> js_string \<Rightarrow> bool \<times> RegExp" where
  "test ucd R S = (case RegExpBuiltinExec ucd R S of (m, R') \<Rightarrow> (m \<noteq> None, R'))"

text \<open>A regular expression literal with the flag \<^verbatim>\<open>i\<close> only.\<close>

definition RegExp_i :: "pattern \<Rightarrow> RegExp" where
  "RegExp_i p =
     \<lparr>OriginalSource = p, ignoreCase = True, global = False, sticky = False, lastIndex = 0\<rparr>"

definition right :: RegExp where
  "right = RegExp_i (Sequence
     [WordBoundary,
      Group (Disjunction (Literal ''2'') (Disjunction (Literal ''3'') (Literal ''4''))),
      Literal '' o'clock'',
      WordBoundary])"

definition left :: RegExp where
  "left = RegExp_i (Sequence
     [WordBoundary,
      Group (Disjunction (Literal ''8'') (Disjunction (Literal ''9'') (Literal ''10''))),
      Literal '' o'clock'',
      WordBoundary])"

section \<open>The direction extractor\<close>

text \<open>
  The numbers \<open>0.6\<close>, \<open>-0.6\<close> and \<open>0\<close> are returned as written; no arithmetic is done on
  them, so they are modelled by the reals of the same decimal notation.
\<close>

definition extractPan :: "unicode_upper \<Rightarrow> js_string \<Rightarrow> real" where
  "extractPan ucd text =
     (if fst (test ucd right text) then 0.6
      else if fst (test ucd left text) then - 0.6
      else 0)"

section \<open>Decoding the audio payload: \<open>base64ToBlob\<close>\<close>

text \<open>
  \<^verbatim>\<open>
  const base64ToBlob = (base64, type) => {
    const byteCharacters = atob(base64);
    const byteNumbers = new Array(byteCharacters.length);
    for (let i = 0; i < byteCharacters.length; i += 1) {
      byteNumbers[i] = byteCharacters.charCodeAt(i);
    }
    return new Blob([new Uint8Array(byteNumbers)], { type });
  };
  \<close>
  \<open>atob\<close>, \<open>Uint8Array\<close> and \<open>Blob\<close> belong to the browser; they are modelled after
  their standards (the "forgiving-base64 decode" of the WHATWG Infra standard, the
  typed arrays of ECMAScript and the \<open>Blob\<close> constructor of the File API).
\<close>

type_synonym byte = "8 word"

datatype js_error =
    TypeError
  | SyntaxError
  | InvalidCharacterError
  | NotSupportedError
  | EncodingError

subsection \<open>Bits of a word, most significant first\<close>

definition bits_of :: "'a::len word \<Rightarrow> bool list" where
  "bits_of w = rev (map (bit w) [0..<LENGTH('a)])"

definition word_of_bits :: "bool list \<Rightarrow> 'a::len word" where
  "word_of_bits bs = horner_sum of_bool 2 (rev bs)"

subsection \<open>\<open>atob\<close>\<close>

text \<open>Table 1 of RFC 4648: the value \<open>n\<close> is written as the \<open>n\<close>-th code unit.\<close>

definition Table1 :: js_string where
  "Table1 = js ''ABCDEFGHIJKLMNOPQRSTUVWXYZabcdefghijklmnopqrstuvwxyz0123456789+/''"

definition Table1_value :: "code_unit \<Rightarrow> nat option" where
  "Table1_value c = map_of (zip Table1 [0..<64]) c"

definition ASCII_whitespace :: "code_unit \<Rightarrow> bool" where
  "ASCII_whitespace c \<longleftrightarrow> c = 0x09 \<or> c = 0x0A \<or> c = 0x0C \<or> c = 0x0D \<or> c = 0x20"

definition ASCII_alphanumeric :: "code_unit \<Rightarrow> bool" where
  "ASCII_alphanumeric c \<longleftrightarrow>
     (0x30 \<le> c \<and> c \<le> 0x39) \<or> (0x41 \<le> c \<and> c \<le> 0x5A) \<or> (0x61 \<le> c \<and> c \<le> 0x7A)"

text \<open>Step 2: a text whose length is a multiple of four loses one or two final \<open>=\<close>.\<close>

definition remove_padding :: "js_string \<Rightarrow> js_string" where
  "remove_padding d =
     (if 2 \<le> length d \<and> last d = 0x3D \<and> last (butlast d) = 0x3D then butlast (butlast d)
      else if 1 \<le> length d \<and> last d = 0x3D then butlast d
      else d)"

text \<open>
  Steps 8 to 10: every code unit appends the six bits of its value to the bit buffer;
  24 collected bits are three bytes of output. At the end, a buffer of 12 bits
  gives one more byte and a buffer of 18 bits two more; the other bits are dropped.
\<close>

fun decode_loop :: "js_string \<Rightarrow> bool list \<Rightarrow> byte list \<Rightarrow> byte list option" where
  "decode_loop [] buffer output =
     Some (if length buffer = 12 then output @ [word_of_bits (take 8 buffer)]
           else if length buffer = 18
           then output @ [word_of_bits (take 8 buffer), word_of_bits (take 8 (drop 8 buffer))]
           else output)"
| "decode_loop (c # data) buffer output =
     (case Table1_value c of
        None \<Rightarrow> None
      | Some n \<Rightarrow>
          let buffer' = buffer @ bits_of (of_nat n :: 6 word)
          in if length buffer' = 24
             then decode_loop data []
                    (output @ [word_of_bits (take 8 buffer'),
                               word_of_bits (take 8 (drop 8 buffer')),
                               word_of_bits (take 8 (drop 16 buffer'))])
             else decode_loop data buffer' output)"

text \<open>Forgiving-base64 decode; \<open>None\<close> is its failure.\<close>

definition forgiving_base64_decode :: "js_string \<Rightarrow> byte list option" where
  "forgiving_base64_decode data =
     (let data1 = filter (\<lambda>c. \<not> ASCII_whitespace c) data;
          data2 = (if length data1 mod 4 = 0 then remove_padding data1 else data1)
      in if length data2 mod 4 = 1 then None
         else if \<exists>c \<in> set data2. \<not> (c = 0x2B \<or> c = 0x2F \<or> ASCII_alphanumeric c) then None
         else decode_loop data2 [] [])"

text \<open>
  \<open>atob\<close> throws an \<open>InvalidCharacterError\<close> when the decoding fails and returns the
  bytes as a string otherwise, one code unit for each byte.
\<close>

definition atob :: "js_string \<Rightarrow> js_error + js_string" where
  "atob data =
     (case forgiving_base64_decode data of
        None \<Rightarrow> Inl InvalidCharacterError
      | Some output \<Rightarrow> Inr (map ucast output))"

subsection \<open>Arrays, typed arrays and blobs\<close>

text \<open>
  \<open>new Array(n)\<close> has \<open>n\<close> empty slots (\<open>None\<close>). \<open>new Uint8Array(array)\<close> converts
  every element to a number modulo 256; an empty slot gives 0.
\<close>

definition Uint8Array :: "nat option list \<Rightarrow> byte list" where
  "Uint8Array array = map (\<lambda>x. case x of None \<Rightarrow> 0 | Some n \<Rightarrow> of_nat n) array"

text \<open>
  The \<open>Blob\<close> constructor concatenates its parts. By step 3 of the constructor in
  the File API, the \<open>type\<close> option is stored in ASCII lowercase, and as the empty
  string when a character of it lies outside the range from U+0020 to U+007E.
\<close>

record Blob =
  bytes :: "byte list"
  type :: js_string

definition new_Blob :: "byte list list \<Rightarrow> js_string \<Rightarrow> Blob" where
  "new_Blob blobParts t =
     \<lparr>bytes = concat blobParts,
      type = (if \<exists>c \<in> set t. c < 0x20 \<or> 0x7E < c then [] else map ascii_lower t)\<rparr>"

subsection \<open>\<open>base64ToBlob\<close>\<close>

text \<open>
  The \<^verbatim>\<open>for\<close> loop: slot \<open>i\<close> of \<open>byteNumbers\<close> receives the code unit \<open>i\<close>. The
  array has one slot for each code unit, so the index is always one of its slots.
\<close>

function byteNumbers_loop :: "js_string \<Rightarrow> nat \<Rightarrow> nat option list \<Rightarrow> nat option list" where
  "byteNumbers_loop byteCharacters i byteNumbers =
     (if i < length byteCharacters
      then byteNumbers_loop byteCharacters (i + 1)
             (byteNumbers[i := Some (unat (byteCharacters ! i))])
      else byteNumbers)"
  by pat_completeness auto
termination
  by (relation "measure (\<lambda>(byteCharacters, i, byteNumbers). length byteCharacters - i)") auto

declare byteNumbers_loop.simps [simp del]

definition base64ToBlob :: "js_string \<Rightarrow> js_string \<Rightarrow> js_error + Blob" where
  "base64ToBlob base64 t =
     (case atob base64 of
        Inl e \<Rightarrow> Inl e
      | Inr byteCharacters \<Rightarrow>
          let byteNumbers =
                byteNumbers_loop byteCharacters 0 (replicate (length byteCharacters) None)
          in Inr (new_Blob [Uint8Array byteNumbers] t))"

section \<open>The playback path: \<open>speakDescription\<close> and \<open>playSpatial\<close>\<close>

text \<open>
  Both functions are sequences of calls to the browser. The model records every call
  as an event, in the order of the source, and takes the outcome of each call that can
  fail from a record of the platform: \<open>Inl e\<close> when the call throws or its promise
  rejects with \<open>e\<close>, \<open>Inr v\<close> when it returns or resolves to \<open>v\<close>. Awaiting a promise
  is the next step of the sequence. The types of a response (\<open>'r\<close>) and of a decoded
  audio buffer (\<open>'b\<close>) are left open.
\<close>

datatype request =
    POST_tts js_string
  | GET js_string

text \<open>
  The JSON reply of \<^verbatim>\<open>/api/tts\<close>, as far as the client reads it: the field
  \<open>audioBase64\<close> is a string when it is present (the server sends the base64
  text of the audio, the empty string, or an error object without the field).
\<close>

record tts_reply =
  audioBase64 :: "js_string option"

record ('r, 'b) platform =
  fetch :: "request \<Rightarrow> js_error + 'r"
  json :: "'r \<Rightarrow> js_error + tts_reply"
  arrayBuffer :: "'r \<Rightarrow> js_error + byte list"
  createObjectURL :: "Blob \<Rightarrow> js_string"
  new_AudioContext :: "js_error + unit"
  decodeAudioData :: "byte list \<Rightarrow> js_error + 'b"

datatype node = BufferSource | StereoPanner | Destination

datatype ('r, 'b) event =
    Fetch request
  | Json 'r
  | CreateObjectURL Blob
  | SetAudioSrc js_string
  | NewAudioContext
  | ArrayBuffer 'r
  | DecodeAudioData "byte list"
  | CreateBufferSource
  | SetBuffer 'b
  | CreateStereoPanner
  | SetPan real
  | Connect node node
  | Start nat
  | ConsoleError js_error

text \<open>
  An action is the list of the events it caused and its completion. \<open>perform\<close> is
  one call, \<open>andThen\<close> runs the rest of a function body after a call that completed
  normally, and \<open>tryCatch\<close> hands an exception to the \<^verbatim>\<open>catch\<close> block.
\<close>

type_synonym ('r, 'b, 'a) action = "('r, 'b) event list \<times> (js_error + 'a)"

definition perform :: "('r, 'b) event \<Rightarrow> js_error + 'a \<Rightarrow> ('r, 'b, 'a) action" where
  "perform ev outcome = ([ev], outcome)"

definition andThen ::
  "('r, 'b, 'a) action \<Rightarrow> ('a \<Rightarrow> ('r, 'b, 'c) action) \<Rightarrow> ('r, 'b, 'c) action" where
  "andThen m f =
     (case m of
        (evs, Inl e) \<Rightarrow> (evs, Inl e)
      | (evs, Inr a) \<Rightarrow> (case f a of (evs', r) \<Rightarrow> (evs @ evs', r)))"

definition tryCatch ::
  "('r, 'b, 'a) action \<Rightarrow> (js_error \<Rightarrow> ('r, 'b, 'a) action) \<Rightarrow> ('r, 'b, 'a) action" where
  "tryCatch m h =
     (case m of
        (evs, Inl e) \<Rightarrow> (case h e of (evs', r) \<Rightarrow> (evs @ evs', r))
      | (evs, Inr a) \<Rightarrow> (evs, Inr a))"

text \<open>
  \<^verbatim>\<open>
  const playSpatial = async (audioUrl, text) => {
    const audioContext = new AudioContext();
    const response = await fetch(audioUrl);
    const buffer = await response.arrayBuffer();
    const decoded = await audioContext.decodeAudioData(buffer);
    const source = audioContext.createBufferSource();
    source.buffer = decoded;
    const panner = audioContext.createStereoPanner();
    panner.pan.value = extractPan(text);
    source.connect(panner).connect(audioContext.destination);
    source.start(0);
  };
  \<close>
\<close>

definition playSpatial ::
  "('r, 'b) platform \<Rightarrow> unicode_upper \<Rightarrow> js_string \<Rightarrow> js_string \<Rightarrow> ('r, 'b, unit) action" where
  "playSpatial P ucd audioUrl text =
     andThen (perform NewAudioContext (new_AudioContext P)) (\<lambda>audioContext.
     andThen (perform (Fetch (GET audioUrl)) (fetch P (GET audioUrl))) (\<lambda>response.
     andThen (perform (ArrayBuffer response) (arrayBuffer P response)) (\<lambda>buffer.
     andThen (perform (DecodeAudioData buffer) (decodeAudioData P buffer)) (\<lambda>decoded.
     andThen (perform CreateBufferSource (Inr ())) (\<lambda>source.
     andThen (perform (SetBuffer decoded) (Inr ())) (\<lambda>_.
     andThen (perform CreateStereoPanner (Inr ())) (\<lambda>panner.
     andThen (perform (SetPan (extractPan ucd text)) (Inr ())) (\<lambda>_.
     andThen (perform (Connect BufferSource StereoPanner) (Inr ())) (\<lambda>_.
     andThen (perform (Connect StereoPanner Destination) (Inr ())) (\<lambda>_.
     perform (Start 0) (Inr ())))))))))))"

text \<open>
  \<^verbatim>\<open>
  const speakDescription = async (text) => {
    if (!text) {
      return;
    }
    try {
      const response = await fetch("/api/tts", {
        method: "POST",
        headers: { "Content-Type": "application/json" },
        body: JSON.stringify({ text, urgency: "normal" }),
      });
      const data = await response.json();
      if (!data.audioBase64) {
        return;
      }
      const audioBlob = base64ToBlob(data.audioBase64, "audio/mpeg");
      const audioUrl = URL.createObjectURL(audioBlob);
      audioEl.src = audioUrl;
      await playSpatial(audioUrl, text);
    } catch (error) {
      console.error(error);
    }
  };
  \<close>
  \<open>!data.audioBase64\<close> holds for an absent field and for the empty string.
\<close>

definition speakDescription ::
  "('r, 'b) platform \<Rightarrow> unicode_upper \<Rightarrow> js_string \<Rightarrow> ('r, 'b, unit) action" where
  "speakDescription P ucd text =
     (if text = [] then ([], Inr ())
      else tryCatch
        (andThen (perform (Fetch (POST_tts text)) (fetch P (POST_tts text))) (\<lambda>response.
         andThen (perform (Json response) (json P response)) (\<lambda>data.
           case audioBase64 data of
             None \<Rightarrow> ([], Inr ())
           | Some base64 \<Rightarrow>
               if base64 = [] then ([], Inr ())
               else
                 andThen ([], base64ToBlob base64 (js ''audio/mpeg'')) (\<lambda>audioBlob.
                 andThen (perform (CreateObjectURL audioBlob)
                            (Inr (createObjectURL P audioBlob))) (\<lambda>audioUrl.
                 andThen (perform (SetAudioSrc audioUrl) (Inr ())) (\<lambda>_.
                 playSpatial P ucd audioUrl text))))))
        (\<lambda>error. perform (ConsoleError error) (Inr ())))"

text \<open>
  A platform for examples: the reply of \<^verbatim>\<open>/api/tts\<close> is response 0 with the given
  \<open>audioBase64\<close> field, the blob URL is fetched as response 1 with the given bytes, and
  decoding has the given outcome.
\<close>

definition example_platform ::
  "js_string option \<Rightarrow> byte list \<Rightarrow> js_error + nat \<Rightarrow> (nat, nat) platform" where
  "example_platform payload audio outcome =
     \<lparr>fetch = (\<lambda>r. case r of POST_tts _ \<Rightarrow> Inr 0 | GET _ \<Rightarrow> Inr 1),
      json = (\<lambda>_. Inr \<lparr>audioBase64 = payload\<rparr>),
      arrayBuffer = (\<lambda>_. Inr audio),
      createObjectURL = (\<lambda>_. js ''blob:1''),
      new_AudioContext = Inr (),
      decodeAudioData = (\<lambda>_. outcome)\<rparr>"

section \<open>The vocabulary of the specification\<close>

text \<open>
  The specification speaks of a text that "contains a case-insensitive, whole-word
  match" of a phrase such as \<open>2 o'clock\<close>. The definitions of this section follow
  those words and not the code; the theorems below compare them with the regular
  expression engine above.

  Case is the case of the ASCII letters (\<open>ascii_lower\<close>). A phrase occurs at offset \<open>i\<close> as a whole
  word when the text agrees with it there up to letter case, and the code units next
  to the occurrence, if any, are not word characters.
\<close>

definition whole_word_match_at :: "js_string \<Rightarrow> js_string \<Rightarrow> nat \<Rightarrow> bool" where
  "whole_word_match_at p text i \<longleftrightarrow>
     i + length p \<le> length text \<and>
     map ascii_lower (take (length p) (drop i text)) = map ascii_lower p \<and>
     (i = 0 \<or> \<not> WordCharacters (text ! (i - 1))) \<and>
     (i + length p = length text \<or> \<not> WordCharacters (text ! (i + length p)))"

definition contains_match :: "js_string list \<Rightarrow> js_string \<Rightarrow> bool" where
  "contains_match ps text \<longleftrightarrow>
     (\<exists>p \<in> set ps. \<exists>i \<in> set [0..<Suc (length text)]. whole_word_match_at p text i)"

text \<open>The right-range and the left-range phrases.\<close>

definition right_range :: "js_string list" where
  "right_range = [js ''2 o'clock'', js ''3 o'clock'', js ''4 o'clock'']"

definition left_range :: "js_string list" where
  "left_range = [js ''8 o'clock'', js ''9 o'clock'', js ''10 o'clock'']"

text \<open>
  An auxiliary notion for the proofs: the word \<open>w\<close> lies in \<open>S\<close> at offset \<open>x\<close>, up to
  the normalisation \<open>f\<close> of code units.
\<close>

definition lit_at :: "(code_unit \<Rightarrow> code_unit) \<Rightarrow> js_string \<Rightarrow> js_string \<Rightarrow> nat \<Rightarrow> bool" where
  "lit_at f w S x \<longleftrightarrow>
     x + length w \<le> length S \<and> map f (take (length w) (drop x S)) = map f w"

text \<open>Kinds of events, for statements about a trace.\<close>

definition is_Start :: "('r, 'b) event \<Rightarrow> bool" where
  "is_Start ev = (case ev of Start _ \<Rightarrow> True | _ \<Rightarrow> False)"

definition is_SetPan :: "('r, 'b) event \<Rightarrow> bool" where
  "is_SetPan ev = (case ev of SetPan _ \<Rightarrow> True | _ \<Rightarrow> False)"

definition is_ConsoleError :: "('r, 'b) event \<Rightarrow> bool" where
  "is_ConsoleError ev = (case ev of ConsoleError _ \<Rightarrow> True | _ \<Rightarrow> False)"

text \<open>
  The standard base64 encoding (RFC 4648, section 4), which the server applies to the
  audio: three bytes are 24 bits and are written as four code units of Table 1, six
  bits each; a final group of one or two bytes is filled up with zero bits and
  written as two or three code units, followed by \<open>==\<close> or \<open>=\<close>.
\<close>

definition sextet_char :: "bool list \<Rightarrow> nat \<Rightarrow> code_unit" where
  "sextet_char bits k = Table1 ! unat (word_of_bits (take 6 (drop (6 * k) bits)) :: 6 word)"

fun base64_encode :: "byte list \<Rightarrow> js_string" where
  "base64_encode [] = []"
| "base64_encode [a] =
     (let bits = bits_of a @ [False, False, False, False]
      in [sextet_char bits 0, sextet_char bits 1, 0x3D, 0x3D])"
| "base64_encode [a, b] =
     (let bits = bits_of a @ bits_of b @ [False, False]
      in [sextet_char bits 0, sextet_char bits 1, sextet_char bits 2, 0x3D])"
| "base64_encode (a # b # c # rest) =
     (let bits = bits_of a @ bits_of b @ bits_of c
      in [sextet_char bits 0, sextet_char bits 1, sextet_char bits 2, sextet_char bits 3])
     @ base64_encode rest"

text \<open>The encoding without its padding, for the proofs.\<close>

fun unpadded :: "byte list \<Rightarrow> js_string" where
  "unpadded [] = []"
| "unpadded [a] =
     (let bits = bits_of a @ [False, False, False, False]
      in [sextet_char bits 0, sextet_char bits 1])"
| "unpadded [a, b] =
     (let bits = bits_of a @ bits_of b @ [False, False]
      in [sextet_char bits 0, sextet_char bits 1, sextet_char bits 2])"
| "unpadded (a # b # c # rest) =
     (let bits = bits_of a @ bits_of b @ bits_of c
      in [sextet_char bits 0, sextet_char bits 1, sextet_char bits 2, sextet_char bits 3])
     @ unpadded rest"

section \<open>Properties of the regular expression engine\<close>

subsection \<open>Case-insensitive comparison with an ASCII pattern character\<close>

lemma Canonicalize_ascii:
  "c < 0x80 \<Longrightarrow>
   Canonicalize ucd True c = (if 0x61 \<le> c \<and> c \<le> 0x7A then c - 0x20 else c)"
  by (simp add: Canonicalize_def toUpperCase_def not_le [symmetric])

lemma Canonicalize_non_ascii:
  "\<not> ch < 0x80 \<Longrightarrow> \<not> Canonicalize ucd True ch < 0x80"
  by (simp add: Canonicalize_def toUpperCase_def not_le not_less split: list.splits)

lemma ascii_lower_less: "ascii_lower c < 0x80 \<longleftrightarrow> c < 0x80"
  unfolding ascii_lower_def
  by (auto simp: word_less_nat_alt word_le_nat_alt unat_word_ariths)

lemma upper_lower_ascii:
  fixes a c :: code_unit
  assumes "a < 0x80" "c < 0x80"
  shows "(if 0x61 \<le> a \<and> a \<le> 0x7A then a - 0x20 else a) =
         (if 0x61 \<le> c \<and> c \<le> 0x7A then c - 0x20 else c) \<longleftrightarrow>
         ascii_lower a = ascii_lower c"
  using assms unfolding ascii_lower_def
  by (auto simp: word_less_nat_alt word_le_nat_alt unat_word_ariths word_unat_eq_iff unat_sub)

lemma lit_at_Nil: "lit_at f [] S x \<longleftrightarrow> x \<le> length S"
  by (simp add: lit_at_def)

lemma lit_at_Cons:
  "lit_at f (c # w) S x \<longleftrightarrow> x < length S \<and> f (S ! x) = f c \<and> lit_at f w S (Suc x)"
proof (cases "x < length S")
  case True
  then have "drop x S = S ! x # drop (Suc x) S"
    by (simp add: Cons_nth_drop_Suc)
  with True show ?thesis
    by (auto simp: lit_at_def)
next
  case False
  then show ?thesis by (simp add: lit_at_def)
qed

lemma lit_at_le: "lit_at f w S x \<Longrightarrow> x + length w \<le> length S"
  by (simp add: lit_at_def)

lemma lit_at_append:
  "lit_at f (u @ v) S x \<longleftrightarrow> lit_at f u S x \<and> lit_at f v S (x + length u)"
proof (induction u arbitrary: x)
  case Nil
  show ?case using lit_at_le [of f v S x] by (auto simp: lit_at_Nil)
next
  case (Cons c u)
  then show ?case by (simp add: lit_at_Cons)
qed

lemma lit_at_nth:
  "lit_at f w S x \<Longrightarrow> j < length w \<Longrightarrow> f (S ! (x + j)) = f (w ! j)"
proof (induction w arbitrary: x j)
  case Nil
  then show ?case by simp
next
  case (Cons c w)
  show ?case
  proof (cases j)
    case 0
    with Cons.prems show ?thesis by (simp add: lit_at_Cons)
  next
    case (Suc k)
    with Cons.prems have "f (S ! (Suc x + k)) = f (w ! k)"
      by (intro Cons.IH) (simp_all add: lit_at_Cons)
    with Suc show ?thesis by simp
  qed
qed

lemma lit_at_cong:
  "(\<And>c a. c \<in> set w \<Longrightarrow> f a = f c \<longleftrightarrow> g a = g c) \<Longrightarrow> lit_at f w S x = lit_at g w S x"
  by (induction w arbitrary: x) (auto simp: lit_at_Nil lit_at_Cons)

lemma matcher_chars:
  "x \<le> length S \<Longrightarrow>
   matcher ucd ic (Sequence (map PatternCharacter w)) S x =
     (if lit_at (Canonicalize ucd ic) w S x then [x + length w] else [])"
  by (induction w arbitrary: x) (auto simp: Sequence_def lit_at_Nil lit_at_Cons)

lemma matcher_range:
  "x \<le> length S \<Longrightarrow> y \<in> set (matcher ucd ic r S x) \<Longrightarrow> x \<le> y \<and> y \<le> length S"
proof (induction r arbitrary: x y)
  case Empty
  then show ?case by simp
next
  case (PatternCharacter c)
  then show ?case by (simp split: if_splits)
next
  case WordBoundary
  then show ?case by (simp split: if_splits)
next
  case (Group r)
  from Group.IH [of x y] Group.prems show ?case by simp
next
  case (Alternative r1 r2)
  from Alternative.prems(2) obtain z
    where z: "z \<in> set (matcher ucd ic r1 S x)" and y: "y \<in> set (matcher ucd ic r2 S z)"
    by auto
  from Alternative.IH(1) [OF Alternative.prems(1) z] have "x \<le> z" "z \<le> length S"
    by simp_all
  with Alternative.IH(2) [OF _ y] show ?case by simp
next
  case (Disjunction r1 r2)
  from Disjunction.prems(2)
  have "y \<in> set (matcher ucd ic r1 S x) \<or> y \<in> set (matcher ucd ic r2 S x)"
    by simp
  with Disjunction.IH(1) [of x y] Disjunction.IH(2) [of x y] Disjunction.prems(1)
  show ?case by blast
qed

lemma matcher_Literal:
  "x \<le> length S \<Longrightarrow>
   matcher ucd ic (Literal s) S x =
     (if lit_at (Canonicalize ucd ic) (js s) S x then [x + length s] else [])"
  by (simp add: Literal_def matcher_chars) (simp add: js_def)

lemma WordCharacters_ascii_lower:
  "ascii_lower a = ascii_lower b \<Longrightarrow> WordCharacters a = WordCharacters b"
  unfolding ascii_lower_def WordCharacters_def
  by (auto simp: word_less_nat_alt word_le_nat_alt unat_word_ariths word_unat_eq_iff
      split: if_splits)

lemma RegExpBuiltinExec_loop_fst:
  "\<not> sticky R \<Longrightarrow>
   fst (RegExpBuiltinExec_loop ucd R S i) \<noteq> None \<longleftrightarrow>
     (\<exists>j. i \<le> j \<and> j \<le> length S \<and>
          matcher ucd (ignoreCase R) (OriginalSource R) S j \<noteq> [])"
proof (induction ucd R S i rule: RegExpBuiltinExec_loop.induct)
  case (1 ucd R S i)
  show ?case
  proof (cases "length S < i")
    case True
    then show ?thesis
      by (subst RegExpBuiltinExec_loop.simps) auto
  next
    case False
    show ?thesis
    proof (cases "matcher ucd (ignoreCase R) (OriginalSource R) S i")
      case Nil
      with False 1 have
        "fst (RegExpBuiltinExec_loop ucd R S i) \<noteq> None \<longleftrightarrow>
           (\<exists>j. i + 1 \<le> j \<and> j \<le> length S \<and>
                matcher ucd (ignoreCase R) (OriginalSource R) S j \<noteq> [])"
        by (subst RegExpBuiltinExec_loop.simps) simp
      also have "\<dots> \<longleftrightarrow> (\<exists>j. i \<le> j \<and> j \<le> length S \<and>
                matcher ucd (ignoreCase R) (OriginalSource R) S j \<noteq> [])"
        using Nil by (metis Suc_eq_plus1 Suc_leI le_neq_implies_less order.trans le_add1)
      finally show ?thesis .
    next
      case (Cons e es)
      with False show ?thesis
        by (subst RegExpBuiltinExec_loop.simps) (auto intro: exI [of _ i])
    qed
  qed
qed

lemma RegExpBuiltinExec_loop_snd:
  "\<not> global R \<Longrightarrow> \<not> sticky R \<Longrightarrow> snd (RegExpBuiltinExec_loop ucd R S i) = R"
proof (induction ucd R S i rule: RegExpBuiltinExec_loop.induct)
  case (1 ucd R S i)
  then show ?case
    by (subst RegExpBuiltinExec_loop.simps) (simp split: list.splits)
qed

lemma Sequence_Nil: "Sequence [] = Empty"
  by (simp add: Sequence_def)

lemma Sequence_Cons: "Sequence (p # ps) = Alternative p (Sequence ps)"
  by (simp add: Sequence_def)

lemma matcher_Alternative_nonempty:
  "matcher ucd ic (Alternative r1 r2) S x \<noteq> [] \<longleftrightarrow>
     (\<exists>y \<in> set (matcher ucd ic r1 S x). matcher ucd ic r2 S y \<noteq> [])"
  by auto

lemma IsWordChar_nat:
  "x \<le> length S \<Longrightarrow> IsWordChar S (int x) \<longleftrightarrow> x < length S \<and> WordCharacters (S ! x)"
  by (auto simp: IsWordChar_def)

lemma IsWordChar_pred:
  "x \<le> length S \<Longrightarrow> IsWordChar S (int x - 1) \<longleftrightarrow> 0 < x \<and> WordCharacters (S ! (x - 1))"
proof (cases x)
  case 0
  then show ?thesis by (simp add: IsWordChar_def)
next
  case (Suc k)
  assume "x \<le> length S"
  with Suc show ?thesis by (auto simp: IsWordChar_def)
qed

lemma in_matcher_Literal:
  "x \<le> length S \<Longrightarrow>
   y \<in> set (matcher ucd ic (Literal s) S x) \<longleftrightarrow>
     lit_at (Canonicalize ucd ic) (js s) S x \<and> y = x + length s"
  by (cases "lit_at (Canonicalize ucd ic) (js s) S x") (simp_all add: matcher_Literal)

lemma in_matcher_WordBoundary:
  "y \<in> set (matcher ucd ic WordBoundary S x) \<longleftrightarrow>
     IsWordChar S (int x - 1) \<noteq> IsWordChar S (int x) \<and> y = x"
  by (cases "IsWordChar S (int x - 1) \<noteq> IsWordChar S (int x)") simp_all

lemma bex_matcher_WordBoundary:
  "(\<exists>y \<in> set (matcher ucd ic WordBoundary S x). P y) \<longleftrightarrow>
     IsWordChar S (int x - 1) \<noteq> IsWordChar S (int x) \<and> P x"
  by (cases "IsWordChar S (int x - 1) \<noteq> IsWordChar S (int x)") simp_all

lemma matcher_Empty_nonempty: "matcher ucd ic Empty S x \<noteq> []"
  by simp

lemma matcher_WordBoundary_nonempty:
  "matcher ucd ic WordBoundary S x \<noteq> [] \<longleftrightarrow>
     IsWordChar S (int x - 1) \<noteq> IsWordChar S (int x)"
  by simp

lemma matcher_digits:
  "x \<le> length S \<Longrightarrow>
   y \<in> set (matcher ucd True
         (Group (Disjunction (Literal a) (Disjunction (Literal b) (Literal c)))) S x) \<longleftrightarrow>
   (\<exists>d \<in> {a, b, c}. lit_at (Canonicalize ucd True) (js d) S x \<and> y = x + length d)"
  by (simp add: in_matcher_Literal del: matcher.simps) (auto simp: in_matcher_Literal)

lemma js_append: "js (u @ v) = js u @ js v"
  by (simp add: js_def)

lemma length_js: "length (js s) = length s"
  by (simp add: js_def)

lemma bex_matcher_Literal:
  "x \<le> length S \<Longrightarrow>
   (\<exists>y \<in> set (matcher ucd ic (Literal s) S x). P y) \<longleftrightarrow>
     lit_at (Canonicalize ucd ic) (js s) S x \<and> P (x + length s)"
  by (cases "lit_at (Canonicalize ucd ic) (js s) S x") (simp_all add: matcher_Literal)

lemma bex_matcher_two_Literals:
  "x \<le> length S \<Longrightarrow>
   (\<exists>y \<in> set (matcher ucd ic (Literal d) S x).
      \<exists>z \<in> set (matcher ucd ic (Literal t) S y). P z) \<longleftrightarrow>
     lit_at (Canonicalize ucd ic) (js (d @ t)) S x \<and> P (x + length (d @ t))"
proof (cases "lit_at (Canonicalize ucd ic) (js d) S x")
  case True
  assume x: "x \<le> length S"
  from lit_at_le [OF True] have "x + length d \<le> length S"
    by (simp add: length_js)
  with x True show ?thesis
    by (simp add: bex_matcher_Literal js_append lit_at_append length_js add.assoc
        del: matcher.simps)
next
  case False
  assume x: "x \<le> length S"
  with False show ?thesis
    by (simp add: bex_matcher_Literal js_append lit_at_append del: matcher.simps)
qed

lemma matcher_clock:
  assumes x: "x \<le> length S"
  shows "matcher ucd True
           (Sequence [WordBoundary,
              Group (Disjunction (Literal a) (Disjunction (Literal b) (Literal c))),
              Literal t, WordBoundary]) S x \<noteq> [] \<longleftrightarrow>
         IsWordChar S (int x - 1) \<noteq> IsWordChar S (int x) \<and>
         (\<exists>d \<in> {a, b, c}.
            lit_at (Canonicalize ucd True) (js (d @ t)) S x \<and>
            IsWordChar S (int (x + length (d @ t)) - 1) \<noteq>
              IsWordChar S (int (x + length (d @ t))))"
    (is "?M \<longleftrightarrow> ?P")
proof -
  let ?wb = "\<lambda>z. IsWordChar S (int z - 1) \<noteq> IsWordChar S (int z)"
  let ?two = "\<lambda>d. \<exists>y \<in> set (matcher ucd True (Literal d) S x).
                    \<exists>z \<in> set (matcher ucd True (Literal t) S y). ?wb z"
  have "?M \<longleftrightarrow> ?wb x \<and> (?two a \<or> ?two b \<or> ?two c)"
    unfolding Sequence_Cons Sequence_Nil matcher_Alternative_nonempty
    by (simp add: bex_matcher_WordBoundary in_matcher_WordBoundary matcher_Empty_nonempty
        bex_Un del: matcher.simps(1,2,3,5))
  also have "\<dots> \<longleftrightarrow> ?P"
    unfolding bex_matcher_two_Literals [OF x] by simp
  finally show ?thesis .
qed

lemma whole_word_match_at_lit:
  "whole_word_match_at p S x \<longleftrightarrow>
     lit_at ascii_lower p S x \<and>
     (x = 0 \<or> \<not> WordCharacters (S ! (x - 1))) \<and>
     (x + length p = length S \<or> \<not> WordCharacters (S ! (x + length p)))"
  by (simp add: whole_word_match_at_def lit_at_def)

lemma phrase_boundaries:
  assumes p: "p \<noteq> []" and first: "WordCharacters (hd p)" and final: "WordCharacters (last p)"
  shows "lit_at ascii_lower p S x \<and>
         IsWordChar S (int x - 1) \<noteq> IsWordChar S (int x) \<and>
         IsWordChar S (int (x + length p) - 1) \<noteq> IsWordChar S (int (x + length p)) \<longleftrightarrow>
         whole_word_match_at p S x"
proof (cases "lit_at ascii_lower p S x")
  case False
  then show ?thesis by (simp add: whole_word_match_at_lit)
next
  case True
  from lit_at_le [OF True] have le: "x + length p \<le> length S" .
  from p have n: "0 < length p" by simp
  have "ascii_lower (S ! (x + 0)) = ascii_lower (p ! 0)"
    using True n by (rule lit_at_nth)
  then have "WordCharacters (S ! (x + 0)) = WordCharacters (p ! 0)"
    by (rule WordCharacters_ascii_lower)
  then have "WordCharacters (S ! x) = WordCharacters (hd p)"
    using p by (simp add: hd_conv_nth)
  with first have a: "WordCharacters (S ! x)" by simp
  have "ascii_lower (S ! (x + (length p - 1))) = ascii_lower (p ! (length p - 1))"
    using True n by (intro lit_at_nth) simp_all
  then have "WordCharacters (S ! (x + (length p - 1))) = WordCharacters (p ! (length p - 1))"
    by (rule WordCharacters_ascii_lower)
  then have "WordCharacters (S ! (x + (length p - 1))) = WordCharacters (last p)"
    using p by (simp add: last_conv_nth)
  moreover from n have "x + (length p - 1) = x + length p - 1" by arith
  ultimately have b: "WordCharacters (S ! (x + length p - 1))"
    using final by simp
  from le n have x: "x < length S" "x \<le> length S" by arith+
  have 1: "IsWordChar S (int x)"
    using x a by (simp add: IsWordChar_nat)
  have 2: "IsWordChar S (int x - 1) \<longleftrightarrow> 0 < x \<and> WordCharacters (S ! (x - 1))"
    using x by (simp add: IsWordChar_pred)
  have 3: "IsWordChar S (int (x + length p) - 1)"
    using le n b IsWordChar_pred [of "x + length p" S] by arith
  have 4: "IsWordChar S (int (x + length p)) \<longleftrightarrow>
      x + length p < length S \<and> WordCharacters (S ! (x + length p))"
    using le by (rule IsWordChar_nat)
  show ?thesis
    unfolding whole_word_match_at_lit using True le 1 2 3 4 by auto
qed

lemma Canonicalize_ascii_less:
  "c < 0x80 \<Longrightarrow> Canonicalize ucd True c < 0x80"
  by (simp add: Canonicalize_ascii)
    (auto simp: word_less_nat_alt word_le_nat_alt unat_sub)

lemma canon_ascii:
  assumes "c < 0x80"
  shows "Canonicalize ucd True ch = Canonicalize ucd True c \<longleftrightarrow>
         ascii_lower ch = ascii_lower c"
proof (cases "ch < 0x80")
  case True
  then show ?thesis using assms
    by (simp only: Canonicalize_ascii upper_lower_ascii)
next
  case False
  from Canonicalize_ascii_less [OF assms, of ucd] Canonicalize_non_ascii [OF False, of ucd]
  have "Canonicalize ucd True ch \<noteq> Canonicalize ucd True c" by auto
  moreover have "ascii_lower ch \<noteq> ascii_lower c"
    using False assms ascii_lower_less [of ch] ascii_lower_less [of c] by auto
  ultimately show ?thesis by simp
qed

lemma ascii_lit_at:
  "\<forall>c \<in> set w. c < 0x80 \<Longrightarrow> lit_at (Canonicalize ucd True) w S x = lit_at ascii_lower w S x"
  by (rule lit_at_cong) (simp add: canon_ascii)

lemma test_clock:
  assumes ascii: "\<forall>d \<in> {a, b, c}. \<forall>ch \<in> set (js (d @ t)). ch < 0x80"
    and words: "\<forall>d \<in> {a, b, c}. js (d @ t) \<noteq> [] \<and>
                  WordCharacters (hd (js (d @ t))) \<and> WordCharacters (last (js (d @ t)))"
  shows "fst (test ucd (RegExp_i (Sequence [WordBoundary,
              Group (Disjunction (Literal a) (Disjunction (Literal b) (Literal c))),
              Literal t, WordBoundary])) S) \<longleftrightarrow>
         contains_match [js (a @ t), js (b @ t), js (c @ t)] S"
    (is "fst (test ucd (RegExp_i ?pat) S) \<longleftrightarrow> ?C")
proof -
  let ?wb = "\<lambda>z. IsWordChar S (int z - 1) \<noteq> IsWordChar S (int z)"
  have "fst (test ucd (RegExp_i ?pat) S) \<longleftrightarrow>
        fst (RegExpBuiltinExec_loop ucd (RegExp_i ?pat) S 0) \<noteq> None"
    by (simp add: test_def RegExpBuiltinExec_def RegExp_i_def split: prod.splits)
  also have "\<dots> \<longleftrightarrow> (\<exists>j. j \<le> length S \<and> matcher ucd True ?pat S j \<noteq> [])"
    by (subst RegExpBuiltinExec_loop_fst) (simp_all add: RegExp_i_def)
  also have "\<dots> \<longleftrightarrow> (\<exists>j. j \<le> length S \<and>
      (\<exists>d \<in> {a, b, c}. whole_word_match_at (js (d @ t)) S j))"
  proof -
    have "matcher ucd True ?pat S j \<noteq> [] \<longleftrightarrow>
          (\<exists>d \<in> {a, b, c}. whole_word_match_at (js (d @ t)) S j)"
      if j: "j \<le> length S" for j
    proof -
      have "whole_word_match_at (js (d @ t)) S j \<longleftrightarrow>
            ?wb j \<and> lit_at (Canonicalize ucd True) (js (d @ t)) S j \<and>
            ?wb (j + length (d @ t))"
        if d: "d \<in> {a, b, c}" for d
      proof -
        from ascii d have "\<forall>ch \<in> set (js (d @ t)). ch < 0x80" by blast
        then have "lit_at (Canonicalize ucd True) (js (d @ t)) S j =
                   lit_at ascii_lower (js (d @ t)) S j"
          by (rule ascii_lit_at)
        moreover from words d have "js (d @ t) \<noteq> []"
          "WordCharacters (hd (js (d @ t)))" "WordCharacters (last (js (d @ t)))"
          by blast+
        from phrase_boundaries [OF this, of S j]
        have "whole_word_match_at (js (d @ t)) S j \<longleftrightarrow>
              lit_at ascii_lower (js (d @ t)) S j \<and> ?wb j \<and>
              ?wb (j + length (js (d @ t)))"
          by simp
        ultimately show ?thesis
          by (auto simp: length_js)
      qed
      then show ?thesis
        unfolding matcher_clock [OF j] by blast
    qed
    then show ?thesis by blast
  qed
  also have "\<dots> \<longleftrightarrow> ?C"
  proof -
    have "i \<in> set [0..<Suc (length S)] \<longleftrightarrow> i \<le> length S" for i
      by (simp only: set_upt atLeastLessThan_iff less_Suc_eq_le) simp
    then have "?C \<longleftrightarrow> (\<exists>p \<in> {js (a @ t), js (b @ t), js (c @ t)}.
        \<exists>i. i \<le> length S \<and> whole_word_match_at p S i)"
      unfolding contains_match_def Bex_def by (simp del: upt_Suc)
    then show ?thesis by blast
  qed
  finally show ?thesis .
qed

lemma test_right: "fst (test ucd right S) \<longleftrightarrow> contains_match right_range S"
proof -
  have "fst (test ucd right S) \<longleftrightarrow>
        contains_match [js (''2'' @ '' o'clock''), js (''3'' @ '' o'clock''),
          js (''4'' @ '' o'clock'')] S"
    unfolding right_def
    by (rule test_clock) (simp_all add: js_def WordCharacters_def)
  then show ?thesis by (simp add: right_range_def)
qed

lemma test_left: "fst (test ucd left S) \<longleftrightarrow> contains_match left_range S"
proof -
  have "fst (test ucd left S) \<longleftrightarrow>
        contains_match [js (''8'' @ '' o'clock''), js (''9'' @ '' o'clock''),
          js (''10'' @ '' o'clock'')] S"
    unfolding left_def
    by (rule test_clock) (simp_all add: js_def WordCharacters_def)
  then show ?thesis by (simp add: left_range_def)
qed

lemma test_unchanged:
  "\<not> global R \<Longrightarrow> \<not> sticky R \<Longrightarrow> snd (test ucd R S) = R"
  using RegExpBuiltinExec_loop_snd [of R ucd S 0]
  by (auto simp: test_def RegExpBuiltinExec_def split: prod.splits)

section \<open>The direction extractor: verified properties\<close>

text \<open>
  C1: every text that contains a case-insensitive, whole-word match of \<open>2 o'clock\<close>,
  \<open>3 o'clock\<close> or \<open>4 o'clock\<close> and no left-range phrase is mapped by \<open>extractPan\<close>
  to \<open>+0.6\<close>.
\<close>

theorem extractPan_right:
  "contains_match right_range text \<Longrightarrow> \<not> contains_match left_range text \<Longrightarrow>
   extractPan ucd text = 0.6"
  by (simp add: extractPan_def test_right)

theorem extractPan_right_witness:
  "contains_match right_range (js ''Coffee mug at 2 o'clock, 3 feet on your right'') \<and>
   \<not> contains_match left_range (js ''Coffee mug at 2 o'clock, 3 feet on your right'') \<and>
   extractPan (\<lambda>c. [c]) (js ''Coffee mug at 2 o'clock, 3 feet on your right'') = 0.6"
proof -
  have r: "contains_match right_range (js ''Coffee mug at 2 o'clock, 3 feet on your right'')"
    by code_simp
  have l: "\<not> contains_match left_range (js ''Coffee mug at 2 o'clock, 3 feet on your right'')"
    by code_simp
  from extractPan_right [OF r l] r l show ?thesis by (intro conjI)
qed

text \<open>
  C2: every text that contains a case-insensitive, whole-word match of \<open>8 o'clock\<close>,
  \<open>9 o'clock\<close> or \<open>10 o'clock\<close> and no right-range phrase is mapped by \<open>extractPan\<close>
  to \<open>-0.6\<close>.
\<close>

theorem extractPan_left:
  "contains_match left_range text \<Longrightarrow> \<not> contains_match right_range text \<Longrightarrow>
   extractPan ucd text = - 0.6"
  by (simp add: extractPan_def test_right test_left)

theorem extractPan_left_witness:
  "contains_match left_range (js ''Chair at 9 o'clock, 5 feet on your left'') \<and>
   \<not> contains_match right_range (js ''Chair at 9 o'clock, 5 feet on your left'') \<and>
   extractPan (\<lambda>c. [c]) (js ''Chair at 9 o'clock, 5 feet on your left'') = - 0.6"
proof -
  have l: "contains_match left_range (js ''Chair at 9 o'clock, 5 feet on your left'')"
    by code_simp
  have r: "\<not> contains_match right_range (js ''Chair at 9 o'clock, 5 feet on your left'')"
    by code_simp
  from extractPan_left [OF l r] r l show ?thesis by (intro conjI)
qed

text \<open>
  C3: every text that contains both a right-range and a left-range phrase is mapped
  to \<open>+0.6\<close>, whatever the order of the two phrases in the text: the theorem puts no
  condition on where they occur.
\<close>

theorem extractPan_right_precedence:
  "contains_match right_range text \<Longrightarrow> contains_match left_range text \<Longrightarrow>
   extractPan ucd text = 0.6"
  by (simp add: extractPan_def test_right)

theorem extractPan_right_precedence_witness:
  "contains_match right_range (js ''Exit at 9 o'clock; stairs at 3 o'clock, CAUTION'') \<and>
   contains_match left_range (js ''Exit at 9 o'clock; stairs at 3 o'clock, CAUTION'') \<and>
   extractPan (\<lambda>c. [c]) (js ''Exit at 9 o'clock; stairs at 3 o'clock, CAUTION'') = 0.6"
proof -
  have r: "contains_match right_range (js ''Exit at 9 o'clock; stairs at 3 o'clock, CAUTION'')"
    by code_simp
  have l: "contains_match left_range (js ''Exit at 9 o'clock; stairs at 3 o'clock, CAUTION'')"
    by code_simp
  from extractPan_right_precedence [OF r l] r l show ?thesis by (intro conjI)
qed

text \<open>
  C4: every text that contains neither a right-range nor a left-range phrase is
  mapped to \<open>0\<close>; so are the empty text and texts that name another clock number,
  such as \<open>12 o'clock\<close> (its \<open>2\<close> does not start a word) and \<open>7 o'clock\<close>.
\<close>

theorem extractPan_center:
  "(\<not> contains_match right_range text \<and> \<not> contains_match left_range text \<longrightarrow>
      extractPan ucd text = 0) \<and>
   extractPan ucd [] = 0 \<and>
   extractPan ucd (js ''Door at 12 o'clock'') = 0 \<and>
   extractPan ucd (js ''Door at 7 o'clock'') = 0"
proof -
  have center: "extractPan ucd t = 0"
    if "\<not> contains_match right_range t" "\<not> contains_match left_range t" for t
    using that by (simp add: extractPan_def test_right test_left)
  have "\<not> contains_match right_range []" "\<not> contains_match left_range []"
    by code_simp+
  then have 1: "extractPan ucd [] = 0" by (rule center)
  have "\<not> contains_match right_range (js ''Door at 12 o'clock'')"
    "\<not> contains_match left_range (js ''Door at 12 o'clock'')"
    by code_simp+
  then have 2: "extractPan ucd (js ''Door at 12 o'clock'') = 0" by (rule center)
  have "\<not> contains_match right_range (js ''Door at 7 o'clock'')"
    "\<not> contains_match left_range (js ''Door at 7 o'clock'')"
    by code_simp+
  then have 3: "extractPan ucd (js ''Door at 7 o'clock'') = 0" by (rule center)
  from center [of "text"] 1 2 3 show ?thesis by blast
qed

theorem extractPan_center_witness:
  "\<not> contains_match right_range (js ''Clear path ahead, no obstacles'') \<and>
   \<not> contains_match left_range (js ''Clear path ahead, no obstacles'') \<and>
   extractPan (\<lambda>c. [c]) (js ''Clear path ahead, no obstacles'') = 0"
proof -
  have r: "\<not> contains_match right_range (js ''Clear path ahead, no obstacles'')"
    by code_simp
  have l: "\<not> contains_match left_range (js ''Clear path ahead, no obstacles'')"
    by code_simp
  from extractPan_center [of "js ''Clear path ahead, no obstacles''" "\<lambda>c. [c]"] r l
  show ?thesis by blast
qed

text \<open>
  C5: for every text, the value of \<open>extractPan\<close> lies in the closed interval from
  \<open>-1\<close> to \<open>1\<close>.
\<close>

theorem extractPan_range: "- 1 \<le> extractPan ucd text \<and> extractPan ucd text \<le> 1"
  by (simp add: extractPan_def)

text \<open>
  C6: \<open>extractPan\<close> is total and pure. The search loop of the engine is defined by
  well-founded recursion, so every text has a result, and no path of the model
  raises: the result is one of the three numbers of the source. The two RegExp
  objects are left as they were created (neither has the flag \<^verbatim>\<open>g\<close> or \<^verbatim>\<open>y\<close>, so
  \<open>test\<close> does not write \<open>lastIndex\<close>), and equal texts have equal results.
\<close>

theorem extractPan_total_pure:
  "extractPan ucd text \<in> {0.6, - 0.6, 0} \<and>
   snd (test ucd right text) = right \<and>
   snd (test ucd left text) = left \<and>
   (text' = text \<longrightarrow> extractPan ucd text' = extractPan ucd text)"
proof -
  have "snd (test ucd right text) = right" "snd (test ucd left text) = left"
    by (rule test_unchanged; simp add: right_def left_def RegExp_i_def)+
  then show ?thesis by (simp add: extractPan_def)
qed

theorem extractPan_total_pure_witness:
  "extractPan (\<lambda>c. [c]) [0xD83D, 0x20, 0x39, 0x20, 0x4F, 0x27, 0x43, 0x4C, 0x4F, 0x43, 0x4B]
     \<in> {0.6, - 0.6, 0} \<and>
   snd (test (\<lambda>c. [c]) right [0xD83D, 0x20, 0x39, 0x20, 0x4F, 0x27, 0x43, 0x4C, 0x4F, 0x43, 0x4B])
     = right \<and>
   snd (test (\<lambda>c. [c]) left [0xD83D, 0x20, 0x39, 0x20, 0x4F, 0x27, 0x43, 0x4C, 0x4F, 0x43, 0x4B])
     = left \<and>
   extractPan (\<lambda>c. [c]) [0xD83D, 0x20, 0x39, 0x20, 0x4F, 0x27, 0x43, 0x4C, 0x4F, 0x43, 0x4B]
     = - 0.6"
proof -
  let ?t = "[0xD83D, 0x20, 0x39, 0x20, 0x4F, 0x27, 0x43, 0x4C, 0x4F, 0x43, 0x4B] :: js_string"
  have "extractPan (\<lambda>c. [c]) ?t = - 0.6" by code_simp
  with extractPan_total_pure [of "\<lambda>c. [c]" ?t ?t] show ?thesis by simp
qed

section \<open>The playback path: verified properties\<close>

subsection \<open>Sequencing of actions\<close>

lemma andThen_Inl: "andThen (evs, Inl e) f = (evs, Inl e)"
  by (simp add: andThen_def)

lemma andThen_Inr: "andThen (evs, Inr a) f = (evs @ fst (f a), snd (f a))"
  by (simp add: andThen_def split: prod.splits)

lemma tryCatch_Inl: "tryCatch (evs, Inl e) h = (evs @ fst (h e), snd (h e))"
  by (simp add: tryCatch_def split: prod.splits)

lemma tryCatch_Inr: "tryCatch (evs, Inr a) h = (evs, Inr a)"
  by (simp add: tryCatch_def)

lemmas action_simps = andThen_Inl andThen_Inr tryCatch_Inl tryCatch_Inr perform_def

lemma playSpatial_success:
  assumes "new_AudioContext P = Inr u" "fetch P (GET audioUrl) = Inr response"
    "arrayBuffer P response = Inr buffer" "decodeAudioData P buffer = Inr decoded"
  shows "playSpatial P ucd audioUrl text =
    ([NewAudioContext, Fetch (GET audioUrl), ArrayBuffer response, DecodeAudioData buffer,
      CreateBufferSource, SetBuffer decoded, CreateStereoPanner,
      SetPan (extractPan ucd text), Connect BufferSource StereoPanner,
      Connect StereoPanner Destination, Start 0], Inr ())"
  using assms by (simp add: playSpatial_def action_simps)

lemma playSpatial_decode_failure:
  assumes "new_AudioContext P = Inr u" "fetch P (GET audioUrl) = Inr response"
    "arrayBuffer P response = Inr buffer" "decodeAudioData P buffer = Inl e"
  shows "playSpatial P ucd audioUrl text =
    ([NewAudioContext, Fetch (GET audioUrl), ArrayBuffer response, DecodeAudioData buffer],
     Inl e)"
  using assms by (simp add: playSpatial_def action_simps)

lemma playSpatial_no_Start:
  assumes "new_AudioContext P = Inl e \<or> (\<exists>u. new_AudioContext P = Inr u \<and>
     (fetch P (GET audioUrl) = Inl e \<or> (\<exists>response. fetch P (GET audioUrl) = Inr response \<and>
       (arrayBuffer P response = Inl e \<or> (\<exists>buffer. arrayBuffer P response = Inr buffer \<and>
          decodeAudioData P buffer = Inl e)))))"
  shows "snd (playSpatial P ucd audioUrl text) = Inl e \<and>
         (\<forall>ev \<in> set (fst (playSpatial P ucd audioUrl text)). \<not> is_Start ev)"
  using assms by (auto simp: playSpatial_def action_simps is_Start_def)

lemma playSpatial_cases:
  obtains (failure) e where "snd (playSpatial P ucd audioUrl text) = Inl e"
      "\<forall>ev \<in> set (fst (playSpatial P ucd audioUrl text)). \<not> is_Start ev"
  | (success) response buffer decoded where "playSpatial P ucd audioUrl text =
    ([NewAudioContext, Fetch (GET audioUrl), ArrayBuffer response, DecodeAudioData buffer,
      CreateBufferSource, SetBuffer decoded, CreateStereoPanner,
      SetPan (extractPan ucd text), Connect BufferSource StereoPanner,
      Connect StereoPanner Destination, Start 0], Inr ())"
proof (cases "new_AudioContext P")
  case (Inl e)
  then show ?thesis using playSpatial_no_Start [of P e audioUrl ucd "text"] failure by blast
next
  case ctx: (Inr u)
  show ?thesis
  proof (cases "fetch P (GET audioUrl)")
    case (Inl e)
    with ctx show ?thesis using playSpatial_no_Start [of P e audioUrl ucd "text"] failure by blast
  next
    case resp: (Inr response)
    show ?thesis
    proof (cases "arrayBuffer P response")
      case (Inl e)
      with ctx resp show ?thesis
        using playSpatial_no_Start [of P e audioUrl ucd "text"] failure by blast
    next
      case buf: (Inr buffer)
      show ?thesis
      proof (cases "decodeAudioData P buffer")
        case (Inl e)
        with ctx resp buf show ?thesis
          using playSpatial_no_Start [of P e audioUrl ucd "text"] failure by blast
      next
        case (Inr decoded)
        with ctx resp buf show ?thesis
          using playSpatial_success [of P u audioUrl response buffer decoded ucd "text"] success
          by blast
      qed
    qed
  qed
qed

lemma speakDescription_playSpatial:
  assumes "text \<noteq> []" "fetch P (POST_tts text) = Inr response" "json P response = Inr data"
    "audioBase64 data = Some base64" "base64 \<noteq> []"
    "base64ToBlob base64 (js ''audio/mpeg'') = Inr audioBlob"
  shows "speakDescription P ucd text =
    tryCatch
      (andThen
         ([Fetch (POST_tts text), Json response, CreateObjectURL audioBlob,
           SetAudioSrc (createObjectURL P audioBlob)], Inr ())
         (\<lambda>_. playSpatial P ucd (createObjectURL P audioBlob) text))
      (\<lambda>error. perform (ConsoleError error) (Inr ()))"
  using assms by (simp add: speakDescription_def action_simps split: prod.splits)

text \<open>
  C7: when the reply of the speech synthesis has no audio payload (the field
  \<open>audioBase64\<close> is absent or the empty string), \<open>speakDescription\<close> returns normally
  after reading the reply: the two requests for the reply are its only events, so
  nothing is played and nothing is reported on the console.
\<close>

theorem speakDescription_empty_payload:
  "fetch P (POST_tts text) = Inr response \<Longrightarrow> json P response = Inr data \<Longrightarrow>
   audioBase64 data = None \<or> audioBase64 data = Some [] \<Longrightarrow>
   snd (speakDescription P ucd text) = Inr () \<and>
   set (fst (speakDescription P ucd text)) \<subseteq> {Fetch (POST_tts text), Json response} \<and>
   (\<forall>ev \<in> set (fst (speakDescription P ucd text)). \<not> is_Start ev \<and> \<not> is_ConsoleError ev)"
  by (auto simp: speakDescription_def action_simps is_Start_def is_ConsoleError_def)

theorem speakDescription_empty_payload_witness:
  "fetch (example_platform (Some []) [] (Inr 0)) (POST_tts (js ''Desk at 12 o'clock'')) = Inr 0 \<and>
   json (example_platform (Some []) [] (Inr 0)) 0 = Inr \<lparr>audioBase64 = Some []\<rparr> \<and>
   speakDescription (example_platform (Some []) [] (Inr 0)) (\<lambda>c. [c])
     (js ''Desk at 12 o'clock'') =
     ([Fetch (POST_tts (js ''Desk at 12 o'clock'')), Json 0], Inr ())"
proof -
  let ?P = "example_platform (Some []) [] (Inr 0)"
  let ?t = "js ''Desk at 12 o'clock''"
  have f: "fetch ?P (POST_tts ?t) = Inr 0"
    and j: "json ?P 0 = Inr \<lparr>audioBase64 = Some []\<rparr>"
    by (simp_all add: example_platform_def)
  have "speakDescription ?P (\<lambda>c. [c]) ?t = ([Fetch (POST_tts ?t), Json 0], Inr ())"
    using speakDescription_empty_payload [OF f j, of "\<lambda>c. [c]"] f j
    by (simp add: speakDescription_def action_simps js_def)
  with f j show ?thesis by (intro conjI)
qed

text \<open>
  C8: when the audio context is created, the payload is fetched and its bytes cannot
  be decoded (\<open>decodeAudioData\<close> rejects with \<open>e\<close>), \<open>playSpatial\<close> completes with the
  failure \<open>e\<close> and has not started the source. Its caller \<open>speakDescription\<close> receives
  the failure in its \<^verbatim>\<open>catch\<close> block, reports it on the console and returns normally,
  with no playback started.
\<close>

theorem playSpatial_decode_failure_reported:
  assumes "new_AudioContext P = Inr u" "fetch P (GET audioUrl) = Inr response"
    "arrayBuffer P response = Inr buffer" "decodeAudioData P buffer = Inl e"
  shows "snd (playSpatial P ucd audioUrl text) = Inl e \<and>
    (\<forall>ev \<in> set (fst (playSpatial P ucd audioUrl text)). \<not> is_Start ev) \<and>
    (text \<noteq> [] \<and> fetch P (POST_tts text) = Inr reply \<and> json P reply = Inr data \<and>
     audioBase64 data = Some base64 \<and> base64 \<noteq> [] \<and>
     base64ToBlob base64 (js ''audio/mpeg'') = Inr audioBlob \<and>
     createObjectURL P audioBlob = audioUrl \<longrightarrow>
       snd (speakDescription P ucd text) = Inr () \<and>
       ConsoleError e \<in> set (fst (speakDescription P ucd text)) \<and>
       (\<forall>ev \<in> set (fst (speakDescription P ucd text)). \<not> is_Start ev))"
proof -
  note failure = playSpatial_decode_failure [OF assms, of ucd "text"]
  have "snd (speakDescription P ucd text) = Inr () \<and>
       ConsoleError e \<in> set (fst (speakDescription P ucd text)) \<and>
       (\<forall>ev \<in> set (fst (speakDescription P ucd text)). \<not> is_Start ev)"
    if "text \<noteq> []" "fetch P (POST_tts text) = Inr reply" "json P reply = Inr data"
      "audioBase64 data = Some base64" "base64 \<noteq> []"
      "base64ToBlob base64 (js ''audio/mpeg'') = Inr audioBlob"
      "createObjectURL P audioBlob = audioUrl"
    using speakDescription_playSpatial [OF that(1-6), of ucd] that(7) failure
    by (simp add: action_simps is_Start_def)
  with failure show ?thesis by (simp add: is_Start_def)
qed

theorem playSpatial_decode_failure_reported_witness:
  "snd (playSpatial (example_platform (Some (js ''TWFu'')) [0x4D, 0x61, 0x6E] (Inl EncodingError))
     (\<lambda>c. [c]) (js ''blob:1'') (js ''Chair at 9 o'clock'')) = Inl EncodingError \<and>
   speakDescription (example_platform (Some (js ''TWFu'')) [0x4D, 0x61, 0x6E] (Inl EncodingError))
     (\<lambda>c. [c]) (js ''Chair at 9 o'clock'') =
     ([Fetch (POST_tts (js ''Chair at 9 o'clock'')), Json 0,
       CreateObjectURL \<lparr>bytes = [0x4D, 0x61, 0x6E], type = js ''audio/mpeg''\<rparr>,
       SetAudioSrc (js ''blob:1''), NewAudioContext, Fetch (GET (js ''blob:1'')),
       ArrayBuffer 1, DecodeAudioData [0x4D, 0x61, 0x6E], ConsoleError EncodingError],
      Inr ())"
proof -
  let ?P = "example_platform (Some (js ''TWFu'')) [0x4D, 0x61, 0x6E] (Inl EncodingError)"
  let ?t = "js ''Chair at 9 o'clock''"
  have h: "new_AudioContext ?P = Inr ()" "fetch ?P (GET (js ''blob:1'')) = Inr 1"
    "arrayBuffer ?P 1 = Inr [0x4D, 0x61, 0x6E]"
    "decodeAudioData ?P [0x4D, 0x61, 0x6E] = Inl EncodingError"
    by (simp_all add: example_platform_def)
  have "snd (playSpatial ?P (\<lambda>c. [c]) (js ''blob:1'') ?t) = Inl EncodingError"
    using playSpatial_decode_failure_reported [OF h, of "\<lambda>c. [c]" ?t] by simp
  moreover have "speakDescription ?P (\<lambda>c. [c]) ?t =
     ([Fetch (POST_tts ?t), Json 0,
       CreateObjectURL \<lparr>bytes = [0x4D, 0x61, 0x6E], type = js ''audio/mpeg''\<rparr>,
       SetAudioSrc (js ''blob:1''), NewAudioContext, Fetch (GET (js ''blob:1'')),
       ArrayBuffer 1, DecodeAudioData [0x4D, 0x61, 0x6E], ConsoleError EncodingError],
      Inr ())"
    by code_simp
  ultimately show ?thesis by (intro conjI)
qed

text \<open>
  C9: in every run of \<open>playSpatial\<close> that starts the source, the pan is set exactly
  once, to \<open>extractPan text\<close>, before the start, and the start is the last event of
  the run: no event sets the pan afterwards. The panner node is local to the run,
  so no other code can reach it.
\<close>

theorem playSpatial_pan_before_start:
  "ev \<in> set (fst (playSpatial P ucd audioUrl text)) \<Longrightarrow> is_Start ev \<Longrightarrow>
   \<exists>before between.
     fst (playSpatial P ucd audioUrl text) =
       before @ [SetPan (extractPan ucd text)] @ between @ [Start 0] \<and>
     (\<forall>ev' \<in> set (before @ between). \<not> is_SetPan ev' \<and> \<not> is_Start ev')"
proof (cases rule: playSpatial_cases [of P ucd audioUrl "text"])
  case (failure e)
  assume "ev \<in> set (fst (playSpatial P ucd audioUrl text))" "is_Start ev"
  with failure show ?thesis by blast
next
  case (success response buffer decoded)
  let ?before = "[NewAudioContext, Fetch (GET audioUrl), ArrayBuffer response,
      DecodeAudioData buffer, CreateBufferSource, SetBuffer decoded, CreateStereoPanner]"
  let ?between = "[Connect BufferSource StereoPanner, Connect StereoPanner Destination]"
  have "fst (playSpatial P ucd audioUrl text) =
      ?before @ [SetPan (extractPan ucd text)] @ ?between @ [Start 0]"
    by (simp add: success)
  moreover have "\<forall>ev' \<in> set (?before @ ?between). \<not> is_SetPan ev' \<and> \<not> is_Start ev'"
    by (simp add: is_SetPan_def is_Start_def)
  ultimately show ?thesis by blast
qed

theorem playSpatial_pan_before_start_witness:
  "Start 0 \<in> set (fst (playSpatial (example_platform None [] (Inr 7)) (\<lambda>c. [c])
      (js ''blob:1'') (js ''Chair at 9 o'clock''))) \<and>
   is_Start (Start 0 :: (nat, nat) event) \<and>
   (\<exists>before between.
     fst (playSpatial (example_platform None [] (Inr 7)) (\<lambda>c. [c])
       (js ''blob:1'') (js ''Chair at 9 o'clock'')) =
       before @ [SetPan (- 0.6)] @ between @ [Start 0] \<and>
     (\<forall>ev' \<in> set (before @ between). \<not> is_SetPan ev' \<and> \<not> is_Start ev'))"
proof -
  let ?P = "example_platform None [] (Inr 7)"
  let ?t = "js ''Chair at 9 o'clock''"
  have pan: "extractPan (\<lambda>c. [c]) ?t = - 0.6" by code_simp
  have "playSpatial ?P (\<lambda>c. [c]) (js ''blob:1'') ?t =
    ([NewAudioContext, Fetch (GET (js ''blob:1'')), ArrayBuffer 1, DecodeAudioData [],
      CreateBufferSource, SetBuffer 7, CreateStereoPanner,
      SetPan (extractPan (\<lambda>c. [c]) ?t), Connect BufferSource StereoPanner,
      Connect StereoPanner Destination, Start 0], Inr ())"
    by (rule playSpatial_success) (simp_all add: example_platform_def)
  then have s: "Start 0 \<in> set (fst (playSpatial ?P (\<lambda>c. [c]) (js ''blob:1'') ?t))"
    by simp
  have i: "is_Start (Start 0 :: (nat, nat) event)" by (simp add: is_Start_def)
  from playSpatial_pan_before_start [OF s i] s i pan show ?thesis by simp
qed

section \<open>\<open>base64ToBlob\<close>: verified properties\<close>

subsection \<open>Bits, Table 1 and the decoding loop\<close>

lemma length_bits_of [simp]: "length (bits_of (w :: 'a::len word)) = LENGTH('a)"
  by (simp add: bits_of_def)

lemma word_of_bits_bits_of [simp]: "word_of_bits (bits_of w) = w"
  by (simp add: bits_of_def word_of_bits_def horner_sum_bit_eq_take_bit)

lemma bits_of_word_of_bits:
  assumes "length bs = LENGTH('a::len)"
  shows "bits_of (word_of_bits bs :: 'a word) = bs"
proof -
  have "map (bit (horner_sum of_bool 2 (rev bs) :: 'a word)) [0..<LENGTH('a)] = rev bs"
    using assms by (intro nth_equalityI) (simp_all add: bit_horner_sum_bit_word_iff)
  then show ?thesis by (simp add: bits_of_def word_of_bits_def)
qed


lemma length_Table1: "length Table1 = 64"
  by (simp add: Table1_def js_def)

lemma distinct_Table1: "distinct Table1"
  by (simp add: Table1_def js_def)

lemma Table1_code_points:
  "\<forall>c \<in> set Table1. \<not> ASCII_whitespace c \<and> c \<noteq> 0x3D \<and>
     (c = 0x2B \<or> c = 0x2F \<or> ASCII_alphanumeric c)"
  by (simp add: Table1_def js_def ASCII_whitespace_def ASCII_alphanumeric_def)

lemma Table1_value_nth: "n < 64 \<Longrightarrow> Table1_value (Table1 ! n) = Some n"
  unfolding Table1_value_def
  using map_of_zip_nth [of Table1 "[0..<64]" n] length_Table1 distinct_Table1
  by simp

lemma unat_sextet: "unat (w :: 6 word) < 64"
  using unsigned_less [of w, where ?'a = nat] by simp

lemma sextet_char_in_Table1: "sextet_char bits k \<in> set Table1"
  unfolding sextet_char_def by (rule nth_mem) (simp add: length_Table1 unat_sextet)

lemma Table1_value_sextet_char:
  "Table1_value (sextet_char bits k) =
     Some (unat (word_of_bits (take 6 (drop (6 * k) bits)) :: 6 word))"
  unfolding sextet_char_def by (rule Table1_value_nth) (rule unat_sextet)

lemma decode_loop_sextet_char:
  assumes "6 * k + 6 \<le> length bits"
  shows "decode_loop (sextet_char bits k # data) buffer output =
     (let buffer' = buffer @ take 6 (drop (6 * k) bits)
      in if length buffer' = 24
         then decode_loop data []
                (output @ [word_of_bits (take 8 buffer'),
                           word_of_bits (take 8 (drop 8 buffer')),
                           word_of_bits (take 8 (drop 16 buffer'))])
         else decode_loop data buffer' output)"
proof -
  have "length (take 6 (drop (6 * k) bits)) = LENGTH(6)"
    using assms by simp
  then have "bits_of (word_of_bits (take 6 (drop (6 * k) bits)) :: 6 word) =
      take 6 (drop (6 * k) bits)"
    by (rule bits_of_word_of_bits)
  then show ?thesis
    by (simp add: Table1_value_sextet_char Let_def)
qed


lemma decode_quantum:
  assumes "length bits = 24"
  shows "decode_loop
           ([sextet_char bits 0, sextet_char bits 1, sextet_char bits 2, sextet_char bits 3]
            @ data) [] out =
         decode_loop data []
           (out @ [word_of_bits (take 8 bits), word_of_bits (take 8 (drop 8 bits)),
                      word_of_bits (take 8 (drop 16 bits))])"
proof -
  have 1: "take 6 bits @ take 6 (drop 6 bits) = take 12 bits"
    using take_add [of 6 6 bits] by simp
  have 2: "take 12 bits @ take 6 (drop 12 bits) = take 18 bits"
    using take_add [of 12 6 bits] by simp
  have 3: "take 18 bits @ take 6 (drop 18 bits) = bits"
    using take_add [of 18 6 bits] assms by simp
  show ?thesis
    using assms by (simp add: decode_loop_sextet_char 1 2 3 del: decode_loop.simps(2))
qed

lemma decode_final_two:
  assumes "length bits = 12"
  shows "decode_loop [sextet_char bits 0, sextet_char bits 1] [] out =
         Some (out @ [word_of_bits (take 8 bits)])"
proof -
  have 1: "take 6 bits @ take 6 (drop 6 bits) = bits"
    using take_add [of 6 6 bits] assms by simp
  show ?thesis
    using assms by (simp add: decode_loop_sextet_char 1 del: decode_loop.simps(2))
qed

lemma decode_final_three:
  assumes "length bits = 18"
  shows "decode_loop [sextet_char bits 0, sextet_char bits 1, sextet_char bits 2] [] out =
         Some (out @ [word_of_bits (take 8 bits), word_of_bits (take 8 (drop 8 bits))])"
proof -
  have 1: "take 6 bits @ take 6 (drop 6 bits) = take 12 bits"
    using take_add [of 6 6 bits] by simp
  have 2: "take 12 bits @ take 6 (drop 12 bits) = bits"
    using take_add [of 12 6 bits] assms by simp
  show ?thesis
    using assms by (simp add: decode_loop_sextet_char 1 2 del: decode_loop.simps(2))
qed

lemma decode_loop_unpadded: "decode_loop (unpadded bs) [] out = Some (out @ bs)"
proof (induction bs arbitrary: out rule: unpadded.induct)
  case 1
  show ?case by simp
next
  case (2 a)
  have "length (bits_of a @ [False, False, False, False]) = 12" by simp
  from decode_final_two [OF this] show ?case by (simp add: Let_def)
next
  case (3 a b)
  have "length (bits_of a @ bits_of b @ [False, False]) = 18" by simp
  from decode_final_three [OF this] show ?case by (simp add: Let_def)
next
  case (4 a b c rest)
  have "length (bits_of a @ bits_of b @ bits_of c) = 24" by simp
  from decode_quantum [OF this] 4 show ?case by (simp add: Let_def)
qed


lemma mod_3_Suc3: "Suc (Suc (Suc n)) mod 3 = n mod 3"
  by arith

lemma base64_encode_unpadded:
  "base64_encode bs = unpadded bs @
     (if length bs mod 3 = 0 then [] else if length bs mod 3 = 1 then [0x3D, 0x3D] else [0x3D])"
  by (induction bs rule: base64_encode.induct) (simp_all add: Let_def mod_3_Suc3)

lemma unpadded_Table1: "c \<in> set (unpadded bs) \<Longrightarrow> c \<in> set Table1"
  by (induction bs rule: unpadded.induct) (auto simp: Let_def sextet_char_in_Table1)

lemma length_unpadded_mod: "length (unpadded bs) mod 4 \<noteq> 1"
  by (induction bs rule: unpadded.induct) (simp_all add: Let_def)

lemma length_base64_encode_mod: "length (base64_encode bs) mod 4 = 0"
  by (induction bs rule: base64_encode.induct) (simp_all add: Let_def)

lemma unpadded_Nil: "unpadded bs = [] \<longleftrightarrow> bs = []"
  by (cases bs rule: unpadded.cases) (simp_all add: Let_def)

lemma last_unpadded: "bs \<noteq> [] \<Longrightarrow> last (unpadded bs) \<noteq> 0x3D"
proof -
  assume "bs \<noteq> []"
  then have "unpadded bs \<noteq> []" by (simp add: unpadded_Nil)
  then have "last (unpadded bs) \<in> set (unpadded bs)" by (rule last_in_set)
  then have "last (unpadded bs) \<in> set Table1" by (rule unpadded_Table1)
  with Table1_code_points show ?thesis by blast
qed

lemma remove_padding_base64_encode: "remove_padding (base64_encode bs) = unpadded bs"
proof (cases "bs = []")
  case True
  then show ?thesis by (simp add: remove_padding_def)
next
  case False
  note l = last_unpadded [OF False]
  from False have n: "unpadded bs \<noteq> []" by (simp add: unpadded_Nil)
  have "length bs mod 3 = 0 \<or> length bs mod 3 = 1 \<or> length bs mod 3 = 2" by arith
  then show ?thesis
  proof (elim disjE)
    assume "length bs mod 3 = 0"
    then have "base64_encode bs = unpadded bs" by (simp add: base64_encode_unpadded)
    with l show ?thesis by (simp add: remove_padding_def)
  next
    assume "length bs mod 3 = 1"
    then have "base64_encode bs = unpadded bs @ [0x3D, 0x3D]"
      by (simp add: base64_encode_unpadded)
    then show ?thesis by (simp add: remove_padding_def butlast_append)
  next
    assume "length bs mod 3 = 2"
    then have "base64_encode bs = unpadded bs @ [0x3D]"
      by (simp add: base64_encode_unpadded)
    with l n show ?thesis by (simp add: remove_padding_def butlast_append)
  qed
qed

lemma base64_encode_no_whitespace:
  "filter (\<lambda>c. \<not> ASCII_whitespace c) (base64_encode bs) = base64_encode bs"
proof -
  have "\<not> ASCII_whitespace c" if "c \<in> set (base64_encode bs)" for c
  proof -
    from that have "c \<in> set (unpadded bs) \<or> c = 0x3D"
      unfolding base64_encode_unpadded by (auto split: if_splits)
    then show ?thesis
    proof
      assume "c \<in> set (unpadded bs)"
      then have "c \<in> set Table1" by (rule unpadded_Table1)
      with Table1_code_points show ?thesis by blast
    next
      assume "c = 0x3D"
      then show ?thesis by (simp add: ASCII_whitespace_def)
    qed
  qed
  then show ?thesis by (simp add: filter_id_conv)
qed

lemma forgiving_base64_decode_encode:
  "forgiving_base64_decode (base64_encode bs) = Some bs"
proof -
  have "c = 0x2B \<or> c = 0x2F \<or> ASCII_alphanumeric c" if "c \<in> set (unpadded bs)" for c
    using unpadded_Table1 [OF that] Table1_code_points by blast
  then have "\<not> (\<exists>c \<in> set (unpadded bs). \<not> (c = 0x2B \<or> c = 0x2F \<or> ASCII_alphanumeric c))"
    by blast
  moreover have "decode_loop (unpadded bs) [] [] = Some bs"
    using decode_loop_unpadded [of bs "[]"] by simp
  ultimately show ?thesis
    unfolding forgiving_base64_decode_def
    by (simp only: base64_encode_no_whitespace length_base64_encode_mod
        remove_padding_base64_encode length_unpadded_mod Let_def if_True if_False refl)
qed

lemma byteNumbers_loop_fill:
  "length byteNumbers = length s \<Longrightarrow> i \<le> length s \<Longrightarrow>
   byteNumbers_loop s i byteNumbers =
     take i byteNumbers @ map (\<lambda>c. Some (unat c)) (drop i s)"
proof (induction s i byteNumbers rule: byteNumbers_loop.induct)
  case (1 s i byteNumbers)
  show ?case
  proof (cases "i < length s")
    case True
    let ?v = "Some (unat (s ! i))"
    from True 1 have "byteNumbers_loop s i byteNumbers =
        take (i + 1) (byteNumbers[i := ?v]) @ map (\<lambda>c. Some (unat c)) (drop (i + 1) s)"
      by (subst byteNumbers_loop.simps) simp
    also have "take (i + 1) (byteNumbers[i := ?v]) = take i byteNumbers @ [?v]"
      using True 1(2) by (simp add: take_Suc_conv_app_nth)
    also have "(take i byteNumbers @ [?v]) @ map (\<lambda>c. Some (unat c)) (drop (i + 1) s) =
        take i byteNumbers @ map (\<lambda>c. Some (unat c)) (drop i s)"
      using True by (simp add: Cons_nth_drop_Suc [symmetric])
    finally show ?thesis .
  next
    case False
    with 1(2,3) show ?thesis
      by (subst byteNumbers_loop.simps) simp
  qed
qed

lemma Uint8Array_charCodes:
  "Uint8Array (map (\<lambda>c. Some (unat c)) (map ucast (bs :: byte list) :: js_string)) = bs"
proof -
  have "(of_nat (unat (ucast b :: code_unit)) :: byte) = b" for b :: byte
  proof -
    have "unat b < 2 ^ 16"
      using unsigned_less [of b, where ?'a = nat] by simp
    then have "unat (ucast b :: code_unit) = unat b"
      by (simp add: unsigned_ucast_eq take_bit_nat_eq_self)
    then show ?thesis by simp
  qed
  then show ?thesis
    by (simp add: Uint8Array_def o_def map_idI)
qed

lemma atob_base64_encode: "atob (base64_encode bs) = Inr (map ucast bs)"
  by (simp add: atob_def forgiving_base64_decode_encode)

lemma base64ToBlob_base64_encode:
  "base64ToBlob (base64_encode bs) t = Inr (new_Blob [bs] t)"
proof -
  have "byteNumbers_loop (map ucast bs) 0 (replicate (length (map ucast bs :: js_string)) None) =
      map (\<lambda>c. Some (unat c)) (map ucast bs :: js_string)"
    using byteNumbers_loop_fill [of "replicate (length bs) None" "map ucast bs :: js_string" 0]
    by simp
  then show ?thesis
    by (simp only: base64ToBlob_def atob_base64_encode sum.case Let_def Uint8Array_charCodes)
qed

text \<open>
  C10, as stated: \<open>base64ToBlob\<close> is a left inverse of the standard base64 encoding,
  that is, the blob made from the encoding of a byte sequence holds these bytes, and
  its MIME type is the type argument. The part about the type does not hold for every
  type argument: the \<open>Blob\<close> constructor stores the type in ASCII lowercase, so the
  type \<open>Audio/MPEG\<close> is stored as \<open>audio/mpeg\<close>.
\<close>

theorem base64ToBlob_type_counterexample:
  "base64ToBlob (base64_encode [0x4D, 0x61, 0x6E]) (js ''Audio/MPEG'') \<noteq>
     Inr \<lparr>bytes = [0x4D, 0x61, 0x6E], type = js ''Audio/MPEG''\<rparr>"
  unfolding base64ToBlob_base64_encode
  by (simp add: new_Blob_def js_def ascii_lower_def)

text \<open>
  C10, amended: for every byte sequence and every type argument, \<open>base64ToBlob\<close> of the
  standard base64 encoding of the sequence returns a blob that holds exactly these
  bytes. The type of the blob is the type argument in ASCII lowercase, or the empty
  string when the argument has a character outside the range from U+0020 to U+007E;
  so an argument of characters in this range without capital letters, such as the
  \<open>audio/mpeg\<close> of the only call, is stored as given.
\<close>

theorem base64ToBlob_left_inverse:
  "\<exists>blob. base64ToBlob (base64_encode bs) t = Inr blob \<and> bytes blob = bs \<and>
     type blob = (if \<exists>c \<in> set t. c < 0x20 \<or> 0x7E < c then [] else map ascii_lower t) \<and>
     ((\<forall>c \<in> set t. 0x20 \<le> c \<and> c \<le> 0x7E \<and> \<not> (0x41 \<le> c \<and> c \<le> 0x5A)) \<longrightarrow> type blob = t)"
proof -
  have "map ascii_lower t = t"
    if "\<forall>c \<in> set t. 0x20 \<le> c \<and> c \<le> 0x7E \<and> \<not> (0x41 \<le> c \<and> c \<le> 0x5A)"
    using that by (intro map_idI) (simp add: ascii_lower_def)
  moreover have "\<not> (\<exists>c \<in> set t. c < 0x20 \<or> 0x7E < c)"
    if "\<forall>c \<in> set t. 0x20 \<le> c \<and> c \<le> 0x7E \<and> \<not> (0x41 \<le> c \<and> c \<le> 0x5A)"
    using that by (auto simp: not_less)
  ultimately show ?thesis
    by (simp add: base64ToBlob_base64_encode new_Blob_def)
qed

theorem base64ToBlob_left_inverse_witness:
  "base64ToBlob (base64_encode [0x4D, 0x61, 0x6E]) (js ''audio/mpeg'') =
     Inr \<lparr>bytes = [0x4D, 0x61, 0x6E], type = js ''audio/mpeg''\<rparr>"
proof -
  have "\<forall>c \<in> set (js ''audio/mpeg''). 0x20 \<le> c \<and> c \<le> 0x7E \<and> \<not> (0x41 \<le> c \<and> c \<le> 0x5A)"
    by (simp add: js_def)
  with base64ToBlob_left_inverse [of "[0x4D, 0x61, 0x6E]" "js ''audio/mpeg''"]
  obtain blob where "base64ToBlob (base64_encode [0x4D, 0x61, 0x6E]) (js ''audio/mpeg'') = Inr blob"
    "bytes blob = [0x4D, 0x61, 0x6E]" "type blob = js ''audio/mpeg''"
    by blast
  then show ?thesis by simp
qed

end
